theory Spec2Isabelle
  imports Main
begin

section \<open>Python strings and bytes\<close>

text \<open>
  A Python \<^verbatim>\<open>bytes\<close> value is a list of 8-bit characters. The encoding names the
  program handles (the declared and the detected hint) are Python \<^verbatim>\<open>str\<close> values
  produced by \<^verbatim>\<open>.decode("ascii", "ignore")\<close>, hence ASCII only: they are modelled
  as \<^typ>\<open>string\<close> as well, and \<^verbatim>\<open>str.upper\<close>, \<^verbatim>\<open>str.strip\<close> are modelled on
  ASCII. The decoded content of a file is a \<^verbatim>\<open>str\<close> of arbitrary code points and
  is modelled as a list of natural numbers (the type \<open>str\<close> below).
\<close>

type_synonym bytes = "char list"
type_synonym path = string

definition code :: "char \<Rightarrow> nat" where
  "code c = of_char c"

text \<open>\<^verbatim>\<open>str.isspace\<close> on ASCII: TAB, LF, VT, FF, CR, FS, GS, RS, US and the space.\<close>

definition is_space :: "char \<Rightarrow> bool" where
  "is_space c = ((9 \<le> code c \<and> code c \<le> 13) \<or> (28 \<le> code c \<and> code c \<le> 32))"

text \<open>\<^verbatim>\<open>s.strip()\<close>: leading and trailing whitespace removed.\<close>

definition strip :: "string \<Rightarrow> string" where
  "strip s = rev (dropWhile is_space (rev (dropWhile is_space s)))"

text \<open>\<^verbatim>\<open>s.upper()\<close> on ASCII: the 26 lower-case letters are mapped, all else is kept.\<close>

definition upper_char :: "char \<Rightarrow> char" where
  "upper_char c =
     (case map_of (zip ''abcdefghijklmnopqrstuvwxyz'' ''ABCDEFGHIJKLMNOPQRSTUVWXYZ'') c of
        Some u \<Rightarrow> u
      | None \<Rightarrow> c)"

definition upper :: "string \<Rightarrow> string" where
  "upper s = map upper_char s"

text \<open>\<^verbatim>\<open>s.replace(" ", "")\<close>.\<close>

definition remove_spaces :: "string \<Rightarrow> string" where
  "remove_spaces s = filter (\<lambda>c. c \<noteq> CHR '' '') s"

text \<open>\<^verbatim>\<open>b.decode("ascii", "ignore")\<close>: bytes above 127 are dropped.\<close>

definition decode_ascii_ignore :: "bytes \<Rightarrow> string" where
  "decode_ascii_ignore b = filter (\<lambda>c. code c < 128) b"

section \<open>Encoding names\<close>

text \<open>The dictionary \<^verbatim>\<open>ENC_MAP\<close>, in the order of the source.\<close>

definition ENC_MAP :: "(string \<times> string) list" where
  "ENC_MAP =
    [(''UTF-8'', ''UTF-8''), (''UTF8'', ''UTF-8''), (''US-ASCII'', ''UTF-8''), (''ASCII'', ''UTF-8''),
     (''WINDOWS-1252'', ''CP1252''), (''CP-1252'', ''CP1252''), (''CP1252'', ''CP1252''),
     (''WINDOWS-1250'', ''CP1250''), (''CP-1250'', ''CP1250''), (''CP1250'', ''CP1250''),
     (''ISO-8859-1'', ''ISO-8859-1''), (''ISO8859-1'', ''ISO-8859-1''),
     (''ISO-8859-2'', ''ISO-8859-2''), (''ISO8859-2'', ''ISO-8859-2''),
     (''ISO-8859-3'', ''ISO-8859-3''), (''ISO8859-3'', ''ISO-8859-3''),
     (''ISO-8859-9'', ''ISO-8859-9''), (''ISO8859-9'', ''ISO-8859-9''),
     (''ISO-8859-13'', ''ISO-8859-13''), (''ISO8859-13'', ''ISO-8859-13''),
     (''ISO-8859-15'', ''ISO-8859-15''), (''ISO8859-15'', ''ISO-8859-15''),
     (''IBM865'', ''CP865''), (''CP865'', ''CP865''),
     (''MAC-CENTRALEUROPE'', ''MAC-CENTRALEUROPE''), (''MACCENTRALEUROPE'', ''MAC-CENTRALEUROPE'')]"

text \<open>\<^verbatim>\<open>ENC_MAP.get(enc, enc)\<close>.\<close>

definition enc_map_get :: "string \<Rightarrow> string" where
  "enc_map_get enc = (case map_of ENC_MAP enc of Some v \<Rightarrow> v | None \<Rightarrow> enc)"

definition normalize_enc :: "string \<Rightarrow> string" where
  "normalize_enc enc =
     (if enc = [] then []
      else enc_map_get (remove_spaces (upper (strip enc))))"

section \<open>The candidate list\<close>

text \<open>
  The loop of \<^verbatim>\<open>process_file\<close> over \<^verbatim>\<open>candidates\<close>, with its two variables
  \<^verbatim>\<open>seen\<close> (a set) and \<^verbatim>\<open>ordered\<close> (a list).
\<close>

definition FALLBACKS :: "string list" where
  "FALLBACKS = [''CP1252'', ''ISO-8859-1'', ''CP1250'', ''ISO-8859-13'', ''CP865'', ''MAC-CENTRALEUROPE'']"

fun candidates_loop :: "string list \<Rightarrow> string set \<times> string list \<Rightarrow> string set \<times> string list" where
  "candidates_loop [] (seen, ordered) = (seen, ordered)"
| "candidates_loop (c # cs) (seen, ordered) =
     (let n = (if c \<noteq> [] then normalize_enc c else [])
      in if n \<noteq> [] \<and> n \<notin> seen
         then candidates_loop cs (insert n seen, ordered @ [n])
         else candidates_loop cs (seen, ordered))"

definition ordered_candidates :: "string \<Rightarrow> string \<Rightarrow> string list" where
  "ordered_candidates dec det = snd (candidates_loop ([dec, det] @ FALLBACKS) ({}, []))"

section \<open>UTF-8 and latin-1\<close>

text \<open>
  A decoded \<^verbatim>\<open>str\<close> is a list of code points. \<^verbatim>\<open>b.decode("utf-8")\<close> is the
  strict decoder of Python 3: shortest forms only, no surrogates, nothing above
  U+10FFFF; \<open>None\<close> stands for \<^verbatim>\<open>UnicodeDecodeError\<close>.
\<close>

type_synonym str = "nat list"

definition cont :: "char \<Rightarrow> bool" where
  "cont c = (128 \<le> code c \<and> code c \<le> 191)"

fun utf8_decode :: "bytes \<Rightarrow> str option" where
  "utf8_decode [] = Some []"
| "utf8_decode (b0 # bs) =
     (let n = code b0 in
      if n < 128 then map_option ((#) n) (utf8_decode bs)
      else if 194 \<le> n \<and> n \<le> 223 then
        (case bs of
           b1 # r \<Rightarrow>
             if cont b1
             then map_option ((#) ((n - 192) * 64 + (code b1 - 128))) (utf8_decode r)
             else None
         | _ \<Rightarrow> None)
      else if 224 \<le> n \<and> n \<le> 239 then
        (case bs of
           b1 # b2 # r \<Rightarrow>
             if (if n = 224 then 160 else 128) \<le> code b1 \<and>
                code b1 \<le> (if n = 237 then 159 else 191) \<and> cont b2
             then map_option
                    ((#) ((n - 224) * 4096 + (code b1 - 128) * 64 + (code b2 - 128)))
                    (utf8_decode r)
             else None
         | _ \<Rightarrow> None)
      else if 240 \<le> n \<and> n \<le> 244 then
        (case bs of
           b1 # b2 # b3 # r \<Rightarrow>
             if (if n = 240 then 144 else 128) \<le> code b1 \<and>
                code b1 \<le> (if n = 244 then 143 else 191) \<and> cont b2 \<and> cont b3
             then map_option
                    ((#) ((n - 240) * 262144 + (code b1 - 128) * 4096 +
                          (code b2 - 128) * 64 + (code b3 - 128)))
                    (utf8_decode r)
             else None
         | _ \<Rightarrow> None)
      else None)"

definition is_valid_utf8 :: "bytes \<Rightarrow> bool" where
  "is_valid_utf8 b = (utf8_decode b \<noteq> None)"

text \<open>
  \<^verbatim>\<open>text.encode("utf-8")\<close>, as \<^verbatim>\<open>write_text\<close> does it: a surrogate code point
  raises \<^verbatim>\<open>UnicodeEncodeError\<close> (\<open>None\<close>); a \<^verbatim>\<open>str\<close> holds nothing above U+10FFFF.
\<close>

definition encode_cp :: "nat \<Rightarrow> bytes option" where
  "encode_cp cp =
     (if cp < 128 then Some [char_of cp]
      else if cp < 2048 then Some [char_of (192 + cp div 64), char_of (128 + cp mod 64)]
      else if cp < 65536 then
        (if 55296 \<le> cp \<and> cp \<le> 57343 then None
         else Some [char_of (224 + cp div 4096), char_of (128 + cp div 64 mod 64),
                    char_of (128 + cp mod 64)])
      else if cp < 1114112 then
        Some [char_of (240 + cp div 262144), char_of (128 + cp div 4096 mod 64),
              char_of (128 + cp div 64 mod 64), char_of (128 + cp mod 64)]
      else None)"

fun utf8_encode :: "str \<Rightarrow> bytes option" where
  "utf8_encode [] = Some []"
| "utf8_encode (cp # cps) =
     (case encode_cp cp of
        None \<Rightarrow> None
      | Some b \<Rightarrow> map_option ((@) b) (utf8_encode cps))"

text \<open>\<^verbatim>\<open>b.decode("latin-1")\<close>: every byte is the code point of its value.\<close>

definition latin1_decode :: "bytes \<Rightarrow> str" where
  "latin1_decode b = map code b"

text \<open>The code points a Python \<^verbatim>\<open>str\<close> can be encoded from: the Unicode scalar values.\<close>

definition scalar :: "nat \<Rightarrow> bool" where
  "scalar cp = (cp < 55296 \<or> (57344 \<le> cp \<and> cp < 1114112))"

section \<open>Regular expressions\<close>

text \<open>
  The patterns of the program are sequences of character classes, each taken once,
  optionally (\<^verbatim>\<open>?\<close>), any number of times (\<^verbatim>\<open>*\<close>) or at least once (\<^verbatim>\<open>+\<close>), all
  greedy, with at most one capture group. An atom is a class, its quantifier, and
  whether it stands inside group 1. \<open>rmatch\<close> is the backtracking matcher of
  Python's \<^verbatim>\<open>re\<close> at one position: a quantifier first takes the character, and gives
  it back when the rest of the pattern then fails. It returns the text of group 1 and
  the text after the match.
\<close>

datatype quant = QOne | QOpt | QStar | QPlus

type_synonym 'c atom = "('c \<Rightarrow> bool) \<times> quant \<times> bool"

definition keep :: "bool \<Rightarrow> 'c \<Rightarrow> 'c list \<times> 'c list \<Rightarrow> 'c list \<times> 'c list" where
  "keep g x res = (if g then (x # fst res, snd res) else res)"

fun rmatch :: "'c atom list \<Rightarrow> 'c list \<Rightarrow> ('c list \<times> 'c list) option" where
  "rmatch [] s = Some ([], s)"
| "rmatch ((p, QOne, g) # r) [] = None"
| "rmatch ((p, QOne, g) # r) (x # xs) =
     (if p x then map_option (keep g x) (rmatch r xs) else None)"
| "rmatch ((p, QOpt, g) # r) [] = rmatch r []"
| "rmatch ((p, QOpt, g) # r) (x # xs) =
     (if p x
      then (case rmatch r xs of
              Some res \<Rightarrow> Some (keep g x res)
            | None \<Rightarrow> rmatch r (x # xs))
      else rmatch r (x # xs))"
| "rmatch ((p, QStar, g) # r) [] = rmatch r []"
| "rmatch ((p, QStar, g) # r) (x # xs) =
     (if p x
      then (case rmatch ((p, QStar, g) # r) xs of
              Some res \<Rightarrow> Some (keep g x res)
            | None \<Rightarrow> rmatch r (x # xs))
      else rmatch r (x # xs))"
| "rmatch ((p, QPlus, g) # r) [] = None"
| "rmatch ((p, QPlus, g) # r) (x # xs) =
     (if p x then map_option (keep g x) (rmatch ((p, QStar, g) # r) xs) else None)"

text \<open>
  \<^verbatim>\<open>pattern.search(s)\<close>: the first position, from the left, where the pattern
  matches. The result is the text before the match, group 1 and the text after it.
\<close>

fun re_search :: "'c atom list \<Rightarrow> 'c list \<Rightarrow> ('c list \<times> 'c list \<times> 'c list) option" where
  "re_search r [] = (case rmatch r [] of Some (g, t) \<Rightarrow> Some ([], g, t) | None \<Rightarrow> None)"
| "re_search r (x # xs) =
     (case rmatch r (x # xs) of
        Some (g, t) \<Rightarrow> Some ([], g, t)
      | None \<Rightarrow> map_option (\<lambda>(pre, g, t). (x # pre, g, t)) (re_search r xs))"

text \<open>
  \<^verbatim>\<open>re.sub(pattern, repl, s)\<close>: every match, from the left and without overlap, is
  replaced; \<open>rep\<close> builds the replacement from group 1. After an empty match the
  scan copies one character and goes on (no pattern of this program matches the empty
  string).
\<close>

function re_sub :: "'c atom list \<Rightarrow> ('c list \<Rightarrow> 'c list) \<Rightarrow> 'c list \<Rightarrow> 'c list" where
  "re_sub r rep [] = (case rmatch r [] of Some (g, t) \<Rightarrow> rep g | None \<Rightarrow> [])"
| "re_sub r rep (x # xs) =
     (case rmatch r (x # xs) of
        None \<Rightarrow> x # re_sub r rep xs
      | Some (g, t) \<Rightarrow>
          if length t \<le> length xs then rep g @ re_sub r rep t
          else rep g @ x # re_sub r rep xs)"
  by pat_completeness auto
termination
  by (relation "measure (\<lambda>(r, rep, s). length s)") simp_all

text \<open>\<^verbatim>\<open>re.sub(pattern, repl, s, count=1)\<close>: the first match only.\<close>

definition re_sub1 :: "'c atom list \<Rightarrow> ('c list \<Rightarrow> 'c list) \<Rightarrow> 'c list \<Rightarrow> 'c list" where
  "re_sub1 r rep s =
     (case re_search r s of
        None \<Rightarrow> s
      | Some (pre, g, t) \<Rightarrow> pre @ rep g @ t)"

section \<open>The patterns of the program\<close>

text \<open>\<^verbatim>\<open>s.lower()\<close> on ASCII.\<close>

definition lower_char :: "char \<Rightarrow> char" where
  "lower_char c =
     (case map_of (zip ''ABCDEFGHIJKLMNOPQRSTUVWXYZ'' ''abcdefghijklmnopqrstuvwxyz'') c of
        Some l \<Rightarrow> l
      | None \<Rightarrow> c)"

definition lower :: "string \<Rightarrow> string" where
  "lower s = map lower_char s"

subsection \<open>Classes of bytes\<close>

text \<open>
  The two compiled patterns are \<^verbatim>\<open>bytes\<close> patterns with \<^verbatim>\<open>re.IGNORECASE\<close>: a
  literal letter matches in both cases, ASCII only; \<^verbatim>\<open>\s\<close> is one of
  \<^verbatim>\<open>[ \t\n\r\f\v]\<close>.
\<close>

definition b_lit :: "char \<Rightarrow> char \<Rightarrow> bool" where
  "b_lit c x = (lower_char x = lower_char c)"

definition b_space :: "char \<Rightarrow> bool" where
  "b_space x = ((9 \<le> code x \<and> code x \<le> 13) \<or> code x = 32)"

definition b_not_gt :: "char \<Rightarrow> bool" where
  "b_not_gt x = (x \<noteq> CHR ''>'')"

definition b_quote :: "char \<Rightarrow> bool" where
  "b_quote x = (x = CHR 0x22 \<or> x = CHR 0x27)"

text \<open>\<^verbatim>\<open>[\-A-Za-z0-9_]\<close>\<close>

definition b_name :: "char \<Rightarrow> bool" where
  "b_name x =
     (x = CHR ''-'' \<or> (65 \<le> code x \<and> code x \<le> 90) \<or> (97 \<le> code x \<and> code x \<le> 122) \<or>
      (48 \<le> code x \<and> code x \<le> 57) \<or> x = CHR ''_'')"

definition b_str :: "string \<Rightarrow> char atom list" where
  "b_str s = map (\<lambda>c. (b_lit c, QOne, False)) s"

text \<open>
  \<^verbatim>\<open>META_CHARSET_RE\<close>:
  \<^verbatim>\<open><meta[^>]*charset\s*=\s*["\']?\s*([\-A-Za-z0-9_]+)[^>]*>\<close>
\<close>

definition META_CHARSET_RE :: "char atom list" where
  "META_CHARSET_RE =
     b_str ''<meta'' @ [(b_not_gt, QStar, False)] @ b_str ''charset'' @
     [(b_space, QStar, False)] @ b_str ''='' @
     [(b_space, QStar, False), (b_quote, QOpt, False), (b_space, QStar, False),
      (b_name, QPlus, True), (b_not_gt, QStar, False)] @ b_str ''>''"

text \<open>
  \<^verbatim>\<open>HTTP_EQUIV_RE\<close>:
  \<^verbatim>\<open><meta\s+http-equiv\s*=\s*["\']?content-type["\']?\s+content\s*=\s*["\']\s*text/html\s*;\s*charset\s*=\s*([\-A-Za-z0-9_]+)\s*["\']\s*>\<close>
\<close>

definition HTTP_EQUIV_RE :: "char atom list" where
  "HTTP_EQUIV_RE =
     b_str ''<meta'' @ [(b_space, QPlus, False)] @ b_str ''http-equiv'' @
     [(b_space, QStar, False)] @ b_str ''='' @
     [(b_space, QStar, False), (b_quote, QOpt, False)] @ b_str ''content-type'' @
     [(b_quote, QOpt, False), (b_space, QPlus, False)] @ b_str ''content'' @
     [(b_space, QStar, False)] @ b_str ''='' @
     [(b_space, QStar, False), (b_quote, QOne, False), (b_space, QStar, False)] @
     b_str ''text/html'' @ [(b_space, QStar, False)] @ b_str '';'' @
     [(b_space, QStar, False)] @ b_str ''charset'' @ [(b_space, QStar, False)] @ b_str ''='' @
     [(b_space, QStar, False), (b_name, QPlus, True), (b_space, QStar, False),
      (b_quote, QOne, False), (b_space, QStar, False)] @ b_str ''>''"

definition declared_charset :: "bytes \<Rightarrow> string" where
  "declared_charset b =
     (case re_search META_CHARSET_RE b of
        Some (pre, g, t) \<Rightarrow> decode_ascii_ignore g
      | None \<Rightarrow>
          (case re_search HTTP_EQUIV_RE b of
             Some (pre, g, t) \<Rightarrow> decode_ascii_ignore g
           | None \<Rightarrow> []))"

subsection \<open>Classes of code points\<close>

text \<open>
  The patterns of \<^verbatim>\<open>ensure_meta_utf8\<close> are \<^verbatim>\<open>str\<close> patterns under \<^verbatim>\<open>(?is)\<close>.
  There a literal letter matches in both cases, and Python's case-insensitive matching
  also lets \<^verbatim>\<open>i\<close> match U+0130 and U+0131, \<^verbatim>\<open>s\<close> match U+017F and \<^verbatim>\<open>k\<close>
  match U+212A; \<^verbatim>\<open>\s\<close> is Unicode whitespace.
\<close>

definition u_lit :: "char \<Rightarrow> nat \<Rightarrow> bool" where
  "u_lit c x =
     (x = code (lower_char c) \<or> x = code (upper_char c) \<or>
      (lower_char c = CHR ''i'' \<and> (x = 304 \<or> x = 305)) \<or>
      (lower_char c = CHR ''s'' \<and> x = 383) \<or>
      (lower_char c = CHR ''k'' \<and> x = 8490))"

definition u_space :: "nat \<Rightarrow> bool" where
  "u_space x =
     ((9 \<le> x \<and> x \<le> 13) \<or> (28 \<le> x \<and> x \<le> 32) \<or> x = 133 \<or> x = 160 \<or> x = 5760 \<or>
      (8192 \<le> x \<and> x \<le> 8202) \<or> x = 8232 \<or> x = 8233 \<or> x = 8239 \<or> x = 8287 \<or>
      x = 12288)"

definition u_not_gt :: "nat \<Rightarrow> bool" where
  "u_not_gt x = (x \<noteq> 62)"

definition u_quote :: "nat \<Rightarrow> bool" where
  "u_quote x = (x = 34 \<or> x = 39)"

text \<open>\<^verbatim>\<open>[-A-Za-z0-9_]\<close> under \<^verbatim>\<open>(?i)\<close>\<close>

definition u_name :: "nat \<Rightarrow> bool" where
  "u_name x =
     (x = 45 \<or> (65 \<le> x \<and> x \<le> 90) \<or> (97 \<le> x \<and> x \<le> 122) \<or> (48 \<le> x \<and> x \<le> 57) \<or>
      x = 95 \<or> x = 304 \<or> x = 305 \<or> x = 383 \<or> x = 8490)"

definition u_str :: "string \<Rightarrow> nat atom list" where
  "u_str s = map (\<lambda>c. (u_lit c, QOne, False)) s"

text \<open>An ASCII literal of the source as a \<^verbatim>\<open>str\<close>.\<close>

definition lit :: "string \<Rightarrow> str" where
  "lit s = map code s"

text \<open>\<^verbatim>\<open>(?is)<meta[^>]*charset\s*=\s*["\']?[-A-Za-z0-9_]+[^>]*>\<close>\<close>

definition META_SUB_RE :: "nat atom list" where
  "META_SUB_RE =
     u_str ''<meta'' @ [(u_not_gt, QStar, False)] @ u_str ''charset'' @
     [(u_space, QStar, False)] @ u_str ''='' @
     [(u_space, QStar, False), (u_quote, QOpt, False), (u_name, QPlus, False),
      (u_not_gt, QStar, False)] @ u_str ''>''"

text \<open>
  \<^verbatim>\<open>(?is)<meta\s+http-equiv\s*=\s*["\']?content-type["\']?\s+content\s*=\s*["\']text/html;\s*charset\s*=\s*[-A-Za-z0-9_]+["\']\s*>\<close>
\<close>

definition EQUIV_SUB_RE :: "nat atom list" where
  "EQUIV_SUB_RE =
     u_str ''<meta'' @ [(u_space, QPlus, False)] @ u_str ''http-equiv'' @
     [(u_space, QStar, False)] @ u_str ''='' @
     [(u_space, QStar, False), (u_quote, QOpt, False)] @ u_str ''content-type'' @
     [(u_quote, QOpt, False), (u_space, QPlus, False)] @ u_str ''content'' @
     [(u_space, QStar, False)] @ u_str ''='' @
     [(u_space, QStar, False), (u_quote, QOne, False)] @ u_str ''text/html;'' @
     [(u_space, QStar, False)] @ u_str ''charset'' @ [(u_space, QStar, False)] @ u_str ''='' @
     [(u_space, QStar, False), (u_name, QPlus, False), (u_quote, QOne, False),
      (u_space, QStar, False)] @ u_str ''>''"

text \<open>\<^verbatim>\<open>(?is)<meta[^>]*charset\s*=\s*"utf-8"\<close>\<close>

definition UTF8_META_RE :: "nat atom list" where
  "UTF8_META_RE =
     u_str ''<meta'' @ [(u_not_gt, QStar, False)] @ u_str ''charset'' @
     [(u_space, QStar, False)] @ u_str ''='' @ [(u_space, QStar, False)] @
     u_str [CHR 0x22] @ u_str ''utf-8'' @ u_str [CHR 0x22]"

text \<open>\<^verbatim>\<open>(?is)<head([^>]*)>\<close>\<close>

definition HEAD_RE :: "nat atom list" where
  "HEAD_RE = u_str ''<head'' @ [(u_not_gt, QStar, True)] @ u_str ''>''"

text \<open>The replacement \<^verbatim>\<open><meta charset="utf-8">\<close>.\<close>

definition META_UTF8 :: "str" where
  "META_UTF8 = lit (''<meta charset='' @ [CHR 0x22] @ ''utf-8'' @ [CHR 0x22] @ ''>'')"

text \<open>The replacement template \<^verbatim>\<open><head\1>\n<meta charset="utf-8">\<close>.\<close>

definition head_repl :: "str \<Rightarrow> str" where
  "head_repl g = lit ''<head'' @ g @ lit ''>'' @ [10] @ META_UTF8"

definition ensure_meta_utf8 :: "str \<Rightarrow> bool \<Rightarrow> str" where
  "ensure_meta_utf8 text is_html =
     (if \<not> is_html then text
      else
        let text1 = re_sub META_SUB_RE (\<lambda>g. META_UTF8) text;
            text2 = re_sub EQUIV_SUB_RE (\<lambda>g. META_UTF8) text1
        in if re_search UTF8_META_RE text2 = None
           then re_sub1 HEAD_RE head_repl text2
           else text2)"

section \<open>Files and external tools\<close>

text \<open>
  The file system is a map from paths to contents, with the set of paths that cannot be
  opened for writing. The two external tools are functions of the content of the file
  they are given: \<open>uchardet_out\<close> is the standard output of \<^verbatim>\<open>uchardet\<close>, or
  \<open>None\<close> when the tool is not installed or its call raises; \<open>iconv_run\<close> is what
  \<^verbatim>\<open>subprocess.run(["iconv", "-f", enc, "-t", "UTF-8", path], timeout=...)\<close> does: it
  raises \<^verbatim>\<open>TimeoutExpired\<close>, raises something else, or completes with a return code
  and a standard output. Time is not modelled: whether a call exceeds \<^verbatim>\<open>timeout_s\<close>
  is the environment's choice. \<open>iconv_calls\<close> records the calls made.
\<close>

datatype exn =
    KeyboardInterrupt
  | FileNotFoundError path
  | PermissionError path
  | UnicodeDecodeError
  | UnicodeEncodeError

text \<open>\<^verbatim>\<open>except Exception\<close> catches everything but \<^verbatim>\<open>KeyboardInterrupt\<close>.\<close>

definition is_Exception :: "exn \<Rightarrow> bool" where
  "is_Exception e = (e \<noteq> KeyboardInterrupt)"

datatype proc_result = TimeoutExpired | OtherException | Completed int bytes

record env =
  uchardet_out :: "bytes \<Rightarrow> bytes option"
  iconv_run :: "string \<Rightarrow> bytes \<Rightarrow> proc_result"

record world =
  files :: "path \<rightharpoonup> bytes"
  read_only :: "path set"
  iconv_calls :: "(string \<times> path) list"

text \<open>\<^verbatim>\<open>path.read_bytes()\<close>\<close>

definition read_bytes :: "world \<Rightarrow> path \<Rightarrow> exn + bytes" where
  "read_bytes w path =
     (case files w path of
        None \<Rightarrow> Inl (FileNotFoundError path)
      | Some data \<Rightarrow> Inr data)"

text \<open>
  \<^verbatim>\<open>path.write_text(text, encoding="utf-8")\<close>: the file is opened for writing, which
  fails on a path that is not writable and empties the file otherwise; then the text
  is encoded and written. The result is the exception raised, if any, and the new
  state. Newlines are written as they are (POSIX).
\<close>

definition write_text :: "world \<Rightarrow> path \<Rightarrow> str \<Rightarrow> exn option \<times> world" where
  "write_text w path text =
     (if path \<in> read_only w then (Some (PermissionError path), w)
      else
        (case utf8_encode text of
           None \<Rightarrow> (Some UnicodeEncodeError, w\<lparr>files := (files w)(path \<mapsto> [])\<rparr>)
         | Some b \<Rightarrow> (None, w\<lparr>files := (files w)(path \<mapsto> b)\<rparr>)))"

definition uchardet_guess :: "env \<Rightarrow> path \<Rightarrow> world \<Rightarrow> string" where
  "uchardet_guess env path w =
     (case files w path of
        None \<Rightarrow> []
      | Some data \<Rightarrow>
          (case uchardet_out env data of
             None \<Rightarrow> []
           | Some out \<Rightarrow> strip (decode_ascii_ignore out)))"

definition convert_with_iconv :: "env \<Rightarrow> path \<Rightarrow> string \<Rightarrow> world \<Rightarrow> bytes \<times> world" where
  "convert_with_iconv env path enc w =
     (let w' = w\<lparr>iconv_calls := iconv_calls w @ [(enc, path)]\<rparr> in
      case files w path of
        None \<Rightarrow> ([], w')
      | Some data \<Rightarrow>
          (case iconv_run env enc data of
             Completed returncode stdout \<Rightarrow>
               if returncode = 0 \<and> is_valid_utf8 stdout then (stdout, w') else ([], w')
           | TimeoutExpired \<Rightarrow> ([], w')
           | OtherException \<Rightarrow> ([], w')))"

section \<open>Processing one file\<close>

text \<open>
  The value \<^verbatim>\<open>process_file\<close> returns: \<^verbatim>\<open>SKIP\<close>, \<^verbatim>\<open>OK-DRY\<close> and \<^verbatim>\<open>OK\<close> with the
  source encoding, \<^verbatim>\<open>OK*\<close> (the latin-1 fallback), and \<^verbatim>\<open>FAIL\<close> with the declared and
  the detected hint as the message prints them.
\<close>

datatype outcome =
    SKIP
  | OK_DRY string
  | OK string
  | OK_FALLBACK
  | FAIL string string

text \<open>\<^verbatim>\<open>dec or '-'\<close>\<close>

definition or_dash :: "string \<Rightarrow> string" where
  "or_dash s = (if s = [] then ''-'' else s)"

text \<open>
  \<^verbatim>\<open>path.suffix\<close> of \<^verbatim>\<open>pathlib\<close>: the part of the last component from its last dot
  on, when that dot is neither its first nor its last character.
\<close>

definition path_name :: "path \<Rightarrow> string" where
  "path_name p = rev (takeWhile (\<lambda>c. c \<noteq> CHR ''/'') (rev p))"

definition path_suffix :: "path \<Rightarrow> string" where
  "path_suffix p =
     (let name = path_name p;
          ext = rev (takeWhile (\<lambda>c. c \<noteq> CHR ''.'') (rev name))
      in if CHR ''.'' \<in> set name \<and> ext \<noteq> [] \<and> Suc (length ext) < length name
         then CHR ''.'' # ext
         else [])"

definition is_html_path :: "path \<Rightarrow> bool" where
  "is_html_path path = (lower (path_suffix path) \<in> {''.html'', ''.htm''})"

text \<open>
  The loop \<^verbatim>\<open>for enc in ordered\<close>. \<open>None\<close> means that the loop ended without
  returning.
\<close>

fun convert_loop ::
  "env \<Rightarrow> path \<Rightarrow> bool \<Rightarrow> bool \<Rightarrow> string list \<Rightarrow> world \<Rightarrow> (exn + outcome) option \<times> world"
where
  "convert_loop env path is_html dry_run [] w = (None, w)"
| "convert_loop env path is_html dry_run (enc # rest) w =
     (case convert_with_iconv env path enc w of
        (out, w1) \<Rightarrow>
          if out = [] then convert_loop env path is_html dry_run rest w1
          else if dry_run then (Some (Inr (OK_DRY enc)), w1)
          else
            (case utf8_decode out of
               None \<Rightarrow> convert_loop env path is_html dry_run rest w1
             | Some text \<Rightarrow>
                 (case write_text w1 path
                         (if is_html then ensure_meta_utf8 text True else text) of
                    (Some e, w2) \<Rightarrow> (Some (Inl e), w2)
                  | (None, w2) \<Rightarrow> (Some (Inr (OK enc)), w2))))"

text \<open>The last resort: the \<^verbatim>\<open>try\<close> block that decodes latin-1.\<close>

definition latin1_fallback ::
  "path \<Rightarrow> bool \<Rightarrow> bool \<Rightarrow> bytes \<Rightarrow> string \<Rightarrow> string \<Rightarrow> world \<Rightarrow> (exn + outcome) \<times> world"
where
  "latin1_fallback path is_html dry_run data dec det w =
     (let text = latin1_decode data;
          text' = (if is_html then ensure_meta_utf8 text True else text)
      in if dry_run then (Inr OK_FALLBACK, w)
         else
           (case write_text w path text' of
              (None, w') \<Rightarrow> (Inr OK_FALLBACK, w')
            | (Some e, w') \<Rightarrow>
                if is_Exception e then (Inr (FAIL (or_dash dec) (or_dash det)), w')
                else (Inl e, w')))"

definition process_file :: "env \<Rightarrow> path \<Rightarrow> bool \<Rightarrow> world \<Rightarrow> (exn + outcome) \<times> world" where
  "process_file env path dry_run w =
     (let is_html = is_html_path path in
      case read_bytes w path of
        Inl e \<Rightarrow> (Inl e, w)
      | Inr data \<Rightarrow>
          let dec = declared_charset data;
              det = uchardet_guess env path w
          in if is_valid_utf8 data \<and>
                (dec = [] \<or> upper dec \<in> {''UTF-8'', ''UTF8'', ''US-ASCII'', ''ASCII''})
             then
               (if \<not> dry_run \<and> is_html
                then
                  (case utf8_decode data of
                     None \<Rightarrow> (Inl UnicodeDecodeError, w)
                   | Some text \<Rightarrow>
                       (case write_text w path (ensure_meta_utf8 text True) of
                          (Some e, w') \<Rightarrow> (Inl e, w')
                        | (None, w') \<Rightarrow> (Inr SKIP, w')))
                else (Inr SKIP, w))
             else
               (case convert_loop env path is_html dry_run (ordered_candidates dec det) w of
                  (Some r, w') \<Rightarrow> (r, w')
                | (None, w') \<Rightarrow> latin1_fallback path is_html dry_run data dec det w'))"

section \<open>The run over all files\<close>




section \<open>Auxiliary notions\<close>

text \<open>The bytes \<^verbatim>\<open>convert_with_iconv\<close> returns for a file of content \<open>data\<close>.\<close>

definition iconv_out :: "env \<Rightarrow> bytes \<Rightarrow> string \<Rightarrow> bytes" where
  "iconv_out env data enc =
     (case iconv_run env enc data of
        Completed returncode stdout \<Rightarrow>
          if returncode = 0 \<and> is_valid_utf8 stdout then stdout else []
      | TimeoutExpired \<Rightarrow> []
      | OtherException \<Rightarrow> [])"

text \<open>The state after the calls of \<^verbatim>\<open>iconv\<close> for the encodings \<open>cs\<close>.\<close>

definition called :: "path \<Rightarrow> string list \<Rightarrow> world \<Rightarrow> world" where
  "called path cs w = w\<lparr>iconv_calls := iconv_calls w @ map (\<lambda>c. (c, path)) cs\<rparr>"

text \<open>The test of the short-circuit of \<^verbatim>\<open>process_file\<close>.\<close>

definition already_utf8 :: "bytes \<Rightarrow> bool" where
  "already_utf8 data =
     (is_valid_utf8 data \<and>
      (declared_charset data = [] \<or>
       upper (declared_charset data) \<in> {''UTF-8'', ''UTF8'', ''US-ASCII'', ''ASCII''}))"

section \<open>Concrete files and environments\<close>



text \<open>
  A style sheet of the single byte E9, and a converter that times out for CP1252, fails
  for ISO-8859-1 and converts from CP1250.
\<close>

definition sheet_world :: world where
  "sheet_world = \<lparr>files = [''style.css'' \<mapsto> [CHR 0xE9]], read_only = {}, iconv_calls = []\<rparr>"

definition third_try :: env where
  "third_try =
     \<lparr>uchardet_out = (\<lambda>data. None),
      iconv_run = (\<lambda>enc data.
        if enc = ''CP1252'' then TimeoutExpired
        else if enc = ''ISO-8859-1'' then Completed 1 []
        else if enc = ''CP1250'' then Completed 0 [CHR 0xC3, CHR 0xA9]
        else OtherException)\<rparr>"


section \<open>The words of the specification\<close>






text \<open>The tests of \<^verbatim>\<open>ensure_meta_utf8\<close> on a text, and its text after the two replacements.\<close>

definition has_utf8_meta :: "str \<Rightarrow> bool" where
  "has_utf8_meta text = (re_search UTF8_META_RE text \<noteq> None)"

definition has_charset_meta :: "str \<Rightarrow> bool" where
  "has_charset_meta text = (re_search META_SUB_RE text \<noteq> None)"

definition has_head :: "str \<Rightarrow> bool" where
  "has_head text = (re_search HEAD_RE text \<noteq> None)"

definition replaced :: "str \<Rightarrow> str" where
  "replaced text = re_sub EQUIV_SUB_RE (\<lambda>g. META_UTF8) (re_sub META_SUB_RE (\<lambda>g. META_UTF8) text)"

section \<open>Properties of the UTF-8 codec\<close>

lemma code_char_of: "n < 256 \<Longrightarrow> code (char_of n) = n"
  by (simp add: code_def)

lemma code_lt: "code c < 256"
  by (simp add: code_def)

lemma dec1:
  "cp < 128 \<Longrightarrow> utf8_decode (char_of cp # rest) = map_option ((#) cp) (utf8_decode rest)"
  by (simp add: code_char_of)

lemma dec2:
  assumes "128 \<le> cp" "cp < 2048"
  shows "utf8_decode (char_of (192 + cp div 64) # char_of (128 + cp mod 64) # rest) =
    map_option ((#) cp) (utf8_decode rest)"
proof -
  have a: "192 + cp div 64 < 256" "128 + cp mod 64 < 256" "194 \<le> 192 + cp div 64"
    "192 + cp div 64 \<le> 223" "cp mod 64 \<le> 63"
    using assms by auto
  have v: "cp div 64 * 64 + cp mod 64 = cp" by simp
  show ?thesis using a v by (simp add: code_char_of cont_def Let_def)
qed

lemma p3: "(cp::nat) div 4096 * 4096 + cp div 64 mod 64 * 64 + cp mod 64 = cp"
proof -
  define q where "q = cp div 64"
  have 0: "cp div 4096 = q div 64" unfolding q_def by (simp add: div_mult2_eq)
  have 1: "q * 64 + cp mod 64 = cp" unfolding q_def by simp
  have 2: "q div 64 * 64 + q mod 64 = q" by simp
  show ?thesis unfolding 0 q_def[symmetric] using 1 2 by linarith
qed

lemma p4:
  "(cp::nat) div 262144 * 262144 + cp div 4096 mod 64 * 4096 + cp div 64 mod 64 * 64 + cp mod 64 = cp"
proof -
  define q where "q = cp div 64"
  define p where "p = q div 64"
  have 0: "cp div 4096 = p" "cp div 262144 = p div 64"
    unfolding p_def q_def by (simp_all add: div_mult2_eq)
  have 1: "q * 64 + cp mod 64 = cp" unfolding q_def by simp
  have 2: "p * 64 + q mod 64 = q" unfolding p_def by simp
  have 3: "p div 64 * 64 + p mod 64 = p" by simp
  show ?thesis unfolding 0 q_def[symmetric] using 1 2 3 by linarith
qed

lemma utf8_decode3:
  assumes "code b0 = n" "224 \<le> n" "n \<le> 239"
    "(if n = 224 then 160 else 128) \<le> code b1" "code b1 \<le> (if n = 237 then 159 else 191)"
    "cont b2"
  shows "utf8_decode (b0 # b1 # b2 # r) =
    map_option ((#) ((n - 224) * 4096 + (code b1 - 128) * 64 + (code b2 - 128))) (utf8_decode r)"
  using assms by (simp add: Let_def)

lemma utf8_decode4:
  assumes "code b0 = n" "240 \<le> n" "n \<le> 244"
    "(if n = 240 then 144 else 128) \<le> code b1" "code b1 \<le> (if n = 244 then 143 else 191)"
    "cont b2" "cont b3"
  shows "utf8_decode (b0 # b1 # b2 # b3 # r) =
    map_option ((#) ((n - 240) * 262144 + (code b1 - 128) * 4096 + (code b2 - 128) * 64 +
      (code b3 - 128))) (utf8_decode r)"
  using assms by (simp add: Let_def)

lemma dec3:
  assumes "2048 \<le> cp" "cp < 65536" "\<not> (55296 \<le> cp \<and> cp \<le> 57343)"
  shows "utf8_decode (char_of (224 + cp div 4096) # char_of (128 + cp div 64 mod 64) #
      char_of (128 + cp mod 64) # rest) = map_option ((#) cp) (utf8_decode rest)"
proof -
  define a where "a = cp div 4096"
  define b where "b = cp div 64 mod 64"
  define c where "c = cp mod 64"
  have cp: "a * 4096 + b * 64 + c = cp" unfolding a_def b_def c_def by (rule p3)
  have r: "a < 16" "b < 64" "c < 64" unfolding a_def b_def c_def using assms by auto
  have e0: "a = 0 \<Longrightarrow> 32 \<le> b" using assms(1) cp r by linarith
  have ed: "a = 13 \<Longrightarrow> b \<le> 31" using assms(3) cp r by linarith
  have k: "code (char_of (224 + a)) = 224 + a" "code (char_of (128 + b)) = 128 + b"
    "code (char_of (128 + c)) = 128 + c"
    using r by (simp_all add: code_char_of)
  have c1: "(if 224 + a = 224 then 160 else 128) \<le> code (char_of (128 + b))"
    using e0 by (simp add: k)
  have c2: "code (char_of (128 + b)) \<le> (if 224 + a = 237 then 159 else 191)"
    using ed r by (simp add: k)
  have c3: "cont (char_of (128 + c))" using r by (simp add: cont_def k)
  have "utf8_decode (char_of (224 + a) # char_of (128 + b) # char_of (128 + c) # rest) =
    map_option ((#) ((224 + a - 224) * 4096 + (code (char_of (128 + b)) - 128) * 64 +
      (code (char_of (128 + c)) - 128))) (utf8_decode rest)"
    by (rule utf8_decode3[OF k(1) _ _ c1 c2 c3]) (use r in simp_all)
  also have "(224 + a - 224) * 4096 + (code (char_of (128 + b)) - 128) * 64 +
      (code (char_of (128 + c)) - 128) = cp"
    using cp by (simp add: k)
  finally show ?thesis unfolding a_def b_def c_def .
qed

lemma dec4:
  assumes "65536 \<le> cp" "cp < 1114112"
  shows "utf8_decode (char_of (240 + cp div 262144) # char_of (128 + cp div 4096 mod 64) #
      char_of (128 + cp div 64 mod 64) # char_of (128 + cp mod 64) # rest) =
    map_option ((#) cp) (utf8_decode rest)"
proof -
  define a where "a = cp div 262144"
  define b where "b = cp div 4096 mod 64"
  define c where "c = cp div 64 mod 64"
  define d where "d = cp mod 64"
  have cp: "a * 262144 + b * 4096 + c * 64 + d = cp"
    unfolding a_def b_def c_def d_def by (rule p4)
  have r: "a < 5" "b < 64" "c < 64" "d < 64"
    unfolding a_def b_def c_def d_def using assms by auto
  have e0: "a = 0 \<Longrightarrow> 16 \<le> b" using assms(1) cp r by linarith
  have ed: "a = 4 \<Longrightarrow> b \<le> 15" using assms(2) cp r by linarith
  have k: "code (char_of (240 + a)) = 240 + a" "code (char_of (128 + b)) = 128 + b"
    "code (char_of (128 + c)) = 128 + c" "code (char_of (128 + d)) = 128 + d"
    using r by (simp_all add: code_char_of)
  have c1: "(if 240 + a = 240 then 144 else 128) \<le> code (char_of (128 + b))"
    using e0 by (simp add: k)
  have c2: "code (char_of (128 + b)) \<le> (if 240 + a = 244 then 143 else 191)"
    using ed r by (simp add: k)
  have c3: "cont (char_of (128 + c))" "cont (char_of (128 + d))"
    using r by (simp_all add: cont_def k)
  have "utf8_decode (char_of (240 + a) # char_of (128 + b) # char_of (128 + c) #
      char_of (128 + d) # rest) =
    map_option ((#) ((240 + a - 240) * 262144 + (code (char_of (128 + b)) - 128) * 4096 +
      (code (char_of (128 + c)) - 128) * 64 + (code (char_of (128 + d)) - 128)))
      (utf8_decode rest)"
    by (rule utf8_decode4[OF k(1) _ _ c1 c2 c3]) (use r in simp_all)
  also have "(240 + a - 240) * 262144 + (code (char_of (128 + b)) - 128) * 4096 +
      (code (char_of (128 + c)) - 128) * 64 + (code (char_of (128 + d)) - 128) = cp"
    using cp by (simp add: k)
  finally show ?thesis unfolding a_def b_def c_def d_def .
qed

lemma decode_encode_cp:
  "encode_cp cp = Some b \<Longrightarrow> utf8_decode (b @ rest) = map_option ((#) cp) (utf8_decode rest)"
  unfolding encode_cp_def
  by (auto split: if_splits simp del: utf8_decode.simps simp add: dec1 dec2 dec3 dec4)

text \<open>What \<^verbatim>\<open>encode\<close> writes, \<^verbatim>\<open>decode\<close> reads back.\<close>

lemma decode_encode: "utf8_encode t = Some b \<Longrightarrow> utf8_decode b = Some t"
proof (induction t arbitrary: b)
  case Nil
  then show ?case by simp
next
  case (Cons cp t)
  then obtain b1 b2 where 1: "encode_cp cp = Some b1" and 2: "utf8_encode t = Some b2"
    and 3: "b = b1 @ b2"
    by (auto split: option.splits)
  show ?case using Cons.IH[OF 2] decode_encode_cp[OF 1, of b2] 3 by simp
qed

lemma char_of_code: "char_of (code c) = c"
  by (simp add: code_def)

lemma dm: "(y::nat) < 64 \<Longrightarrow> (x * 64 + y) div 64 = x \<and> (x * 64 + y) mod 64 = y"
  by simp

lemma enc2:
  assumes "194 \<le> code b0" "code b0 \<le> 223" "cont b1"
  shows "encode_cp ((code b0 - 192) * 64 + (code b1 - 128)) = Some [b0, b1]"
proof -
  define x where "x = code b0 - 192"
  define y where "y = code b1 - 128"
  have b: "code b0 = 192 + x" "code b1 = 128 + y" "2 \<le> x" "x < 32" "y < 64"
    using assms by (auto simp: x_def y_def cont_def)
  have r: "128 \<le> x * 64 + y" "x * 64 + y < 2048" using b by linarith+
  have "encode_cp (x * 64 + y) = Some [char_of (192 + x), char_of (128 + y)]"
    using r dm[OF b(5), of x] by (simp add: encode_cp_def)
  then show ?thesis unfolding x_def[symmetric] y_def[symmetric] b(1,2)[symmetric] by (simp add: char_of_code)
qed

lemma enc3:
  assumes "224 \<le> code b0" "code b0 \<le> 239" 
    "(if code b0 = 224 then 160 else 128) \<le> code b1" "code b1 \<le> (if code b0 = 237 then 159 else 191)" "cont b2"
  shows "encode_cp ((code b0 - 224) * 4096 + (code b1 - 128) * 64 + (code b2 - 128)) = Some [b0, b1, b2]"
proof -
  define x where "x = code b0 - 224"
  define y where "y = code b1 - 128"
  define z where "z = code b2 - 128"
  have b: "code b0 = 224 + x" "code b1 = 128 + y" "code b2 = 128 + z" "x < 16" "y < 64" "z < 64"
    using assms by (auto simp: x_def y_def z_def cont_def split: if_splits)
  have e: "x = 0 \<Longrightarrow> 32 \<le> y" "x = 13 \<Longrightarrow> y < 32"
    using assms(3,4) b by (auto split: if_splits)
  define cp where "cp = x * 4096 + y * 64 + z"
  have cp64: "cp = (x * 64 + y) * 64 + z" by (simp add: cp_def)
  have d1: "cp div 64 = x * 64 + y" "cp mod 64 = z"
    using dm[OF b(6), of "x * 64 + y"] unfolding cp64 by blast+
  have d2: "cp div 64 mod 64 = y" "cp div 64 div 64 = x"
    unfolding d1 using dm[OF b(5), of x] by blast+
  have d3: "cp div 4096 = x"
  proof -
    have "cp div 4096 = cp div 64 div 64" by (simp add: div_mult2_eq)
    then show ?thesis using d2 by simp
  qed
  have r: "2048 \<le> cp" "cp < 65536" "\<not> (55296 \<le> cp \<and> cp \<le> 57343)"
    unfolding cp_def using b e by (cases "x = 0"; cases "x = 13"; linarith)+
  have "encode_cp cp = Some [char_of (224 + x), char_of (128 + y), char_of (128 + z)]"
    using r by (simp add: encode_cp_def d1(2) d2(1) d3)
  then show ?thesis unfolding cp_def x_def[symmetric] y_def[symmetric] z_def[symmetric] b(1,2,3)[symmetric] by (simp add: char_of_code)
qed


lemma enc4:
  assumes "240 \<le> code b0" "code b0 \<le> 244" 
    "(if code b0 = 240 then 144 else 128) \<le> code b1" "code b1 \<le> (if code b0 = 244 then 143 else 191)"
    "cont b2" "cont b3"
  shows "encode_cp ((code b0 - 240) * 262144 + (code b1 - 128) * 4096 + (code b2 - 128) * 64 + (code b3 - 128))
     = Some [b0, b1, b2, b3]"
proof -
  define x where "x = code b0 - 240"
  define y where "y = code b1 - 128"
  define z where "z = code b2 - 128"
  define u where "u = code b3 - 128"
  have b: "code b0 = 240 + x" "code b1 = 128 + y" "code b2 = 128 + z" "code b3 = 128 + u"
     "x < 5" "y < 64" "z < 64" "u < 64"
    using assms by (auto simp: x_def y_def z_def u_def cont_def split: if_splits)
  have e: "x = 0 \<Longrightarrow> 16 \<le> y" "x = 4 \<Longrightarrow> y < 16"
    using assms(3,4) b by (auto split: if_splits)
  define cp where "cp = x * 262144 + y * 4096 + z * 64 + u"
  have cp64: "cp = ((x * 64 + y) * 64 + z) * 64 + u" by (simp add: cp_def)
  have d1: "cp div 64 = (x * 64 + y) * 64 + z" "cp mod 64 = u"
    using dm[OF b(8), of "(x * 64 + y) * 64 + z"] unfolding cp64 by blast+
  have d2: "cp div 64 mod 64 = z" "cp div 64 div 64 = x * 64 + y"
    unfolding d1 using dm[OF b(7), of "x * 64 + y"] by blast+
  have d3: "cp div 64 div 64 mod 64 = y" "cp div 64 div 64 div 64 = x"
    unfolding d2 using dm[OF b(6), of x] by blast+
  have d4: "cp div 4096 = cp div 64 div 64" "cp div 262144 = cp div 64 div 64 div 64"
    by (simp_all add: div_mult2_eq)
  have d5: "cp div 4096 mod 64 = y" "cp div 262144 = x"
    unfolding d4 using d3 by blast+
  have r: "65536 \<le> cp" "cp < 1114112"
    unfolding cp_def using b e by (cases "x = 0"; cases "x = 4"; linarith)+
  have "encode_cp cp = Some [char_of (240 + x), char_of (128 + y), char_of (128 + z), char_of (128 + u)]"
    using r by (simp add: encode_cp_def d1(2) d2(1) d5)
  then show ?thesis
    unfolding cp_def x_def[symmetric] y_def[symmetric] z_def[symmetric] u_def[symmetric] b(1,2,3,4)[symmetric]
    by (simp add: char_of_code)
qed

lemma enc1: "code b0 < 128 \<Longrightarrow> encode_cp (code b0) = Some [b0]"
  by (simp add: encode_cp_def char_of_code)

text \<open>What \<^verbatim>\<open>decode\<close> accepts is what \<^verbatim>\<open>encode\<close> writes for its result.\<close>

lemma encode_decode: "utf8_decode b = Some t \<Longrightarrow> utf8_encode t = Some b"
proof (induction b arbitrary: t rule: utf8_decode.induct)
  case 1
  then show ?case by simp
next
  case (2 b0 bs)
  consider (a) "code b0 < 128" | (b) "194 \<le> code b0" "code b0 \<le> 223"
    | (c) "224 \<le> code b0" "code b0 \<le> 239" | (d) "240 \<le> code b0" "code b0 \<le> 244"
    | (e) "128 \<le> code b0" "code b0 < 194" | (f) "244 < code b0"
    by linarith
  then show ?case
  proof cases
    case a
    with "2.prems" obtain t' where t: "utf8_decode bs = Some t'" "t = code b0 # t'"
      by (auto simp: Let_def)
    from "2.IH"(1)[OF refl a t(1)] show ?thesis using t enc1[OF a] by simp
  next
    case b
    with "2.prems" obtain b1 r t' where t: "bs = b1 # r" "cont b1" "utf8_decode r = Some t'"
      "t = ((code b0 - 192) * 64 + (code b1 - 128)) # t'"
      by (auto simp: Let_def split: list.splits if_splits)
    have n: "\<not> code b0 < 128" using b by simp
    from "2.IH"(2)[OF refl n _ t(1) t(2) t(3)] b have "utf8_encode t' = Some r" by simp
    then show ?thesis using t enc2[OF b t(2)] by simp
  next
    case c
    with "2.prems" obtain b1 b2 r t' where t: "bs = b1 # b2 # r"
      "(if code b0 = 224 then 160 else 128) \<le> code b1 \<and>
       code b1 \<le> (if code b0 = 237 then 159 else 191) \<and> cont b2"
      "utf8_decode r = Some t'"
      "t = ((code b0 - 224) * 4096 + (code b1 - 128) * 64 + (code b2 - 128)) # t'"
      by (auto simp: Let_def split: list.splits if_splits)
    have n: "\<not> code b0 < 128" "\<not> (194 \<le> code b0 \<and> code b0 \<le> 223)" using c by simp_all
    from "2.IH"(3)[OF refl n _ t(1) refl t(2) t(3)] c have "utf8_encode t' = Some r" by simp
    then show ?thesis using t(1,4) enc3[OF c] t(2) by simp
  next
    case d
    with "2.prems" obtain b1 b2 b3 r t' where t: "bs = b1 # b2 # b3 # r"
      "(if code b0 = 240 then 144 else 128) \<le> code b1 \<and>
       code b1 \<le> (if code b0 = 244 then 143 else 191) \<and> cont b2 \<and> cont b3"
      "utf8_decode r = Some t'"
      "t = ((code b0 - 240) * 262144 + (code b1 - 128) * 4096 + (code b2 - 128) * 64 + (code b3 - 128)) # t'"
      by (auto simp: Let_def split: list.splits if_splits)
    have n: "\<not> code b0 < 128" "\<not> (194 \<le> code b0 \<and> code b0 \<le> 223)"
      "\<not> (224 \<le> code b0 \<and> code b0 \<le> 239)" using d by simp_all
    from "2.IH"(4)[OF refl n _ t(1) refl refl t(2) t(3)] d have "utf8_encode t' = Some r" by simp
    then show ?thesis using t(1,4) enc4[OF d] t(2) by simp
  next
    case e
    with "2.prems" show ?thesis by (simp add: Let_def)
  next
    case f
    with "2.prems" show ?thesis by (simp add: Let_def)
  qed
qed


section \<open>Properties of encoding names\<close>

lemma upper_char_idem: "upper_char (upper_char c) = upper_char c"
  by (simp add: upper_char_def)

lemma upper_char_space: "is_space (upper_char c) = is_space c"
  by (simp add: upper_char_def is_space_def code_def)

lemma upper_char_blank: "(upper_char c = CHR '' '') = (c = CHR '' '')"
  by (simp add: upper_char_def)

lemma blank_is_space: "is_space (CHR '' '')"
  by (simp add: is_space_def code_def)

lemma strip_Nil: "strip [] = []"
  by (simp add: strip_def)

lemma strip_fixed:
  assumes "s \<noteq> []" "\<not> is_space (hd s)" "\<not> is_space (last s)"
  shows "strip s = s"
proof -
  have 1: "dropWhile is_space s = s" using assms(1,2) by (cases s) auto
  have 2: "dropWhile is_space (rev s) = rev s"
    using assms(1,3) by (cases "rev s") (auto simp: last_rev[symmetric] simp del: last_rev)
  show ?thesis by (simp add: strip_def 1 2)
qed

lemma strip_ends:
  assumes "strip s \<noteq> []"
  shows "\<not> is_space (hd (strip s))" "\<not> is_space (last (strip s))"
proof -
  define t where "t = dropWhile is_space s"
  define u where "u = dropWhile is_space (rev t)"
  have s: "strip s = rev u" by (simp add: strip_def t_def u_def)
  have u: "u \<noteq> []" using assms s by simp
  then have hu: "\<not> is_space (hd u)" unfolding u_def by (rule hd_dropWhile)
  have tn: "t \<noteq> []" using u unfolding u_def by auto
  then have ht: "\<not> is_space (hd t)" unfolding t_def by (rule hd_dropWhile)
  show "\<not> is_space (last (strip s))" using hu u by (simp add: s last_rev)
  have v: "rev t = takeWhile is_space (rev t) @ u" unfolding u_def by simp
  have "rev (rev t) = rev (takeWhile is_space (rev t) @ u)" by (subst v[symmetric]) simp
  then have "t = rev u @ rev (takeWhile is_space (rev t))" by simp
  then obtain v' where "t = rev u @ v'" by blast
  then have "hd t = hd (rev u)" using u by simp
  then show "\<not> is_space (hd (strip s))" using ht by (simp add: s)
qed


text \<open>The three string operations of \<^verbatim>\<open>normalize\<close> in one.\<close>

definition clean :: "string \<Rightarrow> string" where
  "clean s = remove_spaces (upper (strip s))"

lemma hd_filter_keep: "s \<noteq> [] \<Longrightarrow> P (hd s) \<Longrightarrow> hd (filter P s) = hd s"
  by (cases s) auto

lemma last_filter_keep: "s \<noteq> [] \<Longrightarrow> P (last s) \<Longrightarrow> last (filter P s) = last s"
  by (induction s rule: rev_induct) auto

lemma clean_fixed: "clean (clean s) = clean s"
proof (cases "strip s = []")
  case True
  then show ?thesis by (simp add: clean_def upper_def remove_spaces_def strip_Nil)
next
  case False
  define t where "t = upper (strip s)"
  have tn: "t \<noteq> []" using False by (simp add: t_def upper_def)
  have h: "\<not> is_space (hd t)" "\<not> is_space (last t)"
    using strip_ends[OF False] False
    by (simp_all add: t_def upper_def hd_map last_map upper_char_space)
  have nb: "hd t \<noteq> CHR '' ''" "last t \<noteq> CHR '' ''" using h blank_is_space by auto
  define x where "x = remove_spaces t"
  have xh: "hd x = hd t" "last x = last t"
    unfolding x_def remove_spaces_def using tn nb
    by (simp_all add: hd_filter_keep last_filter_keep)
  have xn: "x \<noteq> []" unfolding x_def remove_spaces_def using tn nb(1)
    by (cases t) auto
  have 1: "strip x = x" using xn h xh by (simp add: strip_fixed)
  have 2: "upper x = x"
    unfolding x_def t_def remove_spaces_def upper_def
    by (simp add: filter_map o_def upper_char_idem)
  have 3: "remove_spaces x = x" by (simp add: x_def remove_spaces_def)
  show ?thesis using 1 2 3 by (simp add: clean_def x_def[symmetric] t_def[symmetric])
qed


lemma enc_map_values:
  "map_of ENC_MAP k = Some v \<Longrightarrow>
   v \<in> {''UTF-8'', ''CP1252'', ''CP1250'', ''ISO-8859-1'', ''ISO-8859-2'', ''ISO-8859-3'',
        ''ISO-8859-9'', ''ISO-8859-13'', ''ISO-8859-15'', ''CP865'', ''MAC-CENTRALEUROPE''}"
  by (drule map_of_SomeD) (auto simp: ENC_MAP_def)
lemmas normalize_eval =
  normalize_enc_def strip_def is_space_def code_def upper_def upper_char_def remove_spaces_def
  enc_map_get_def ENC_MAP_def

lemma normalize_values:
  "v \<in> set [''UTF-8'', ''CP1252'', ''CP1250'', ''ISO-8859-1'', ''ISO-8859-2'', ''ISO-8859-3'',
        ''ISO-8859-9'', ''ISO-8859-13'', ''ISO-8859-15'', ''CP865'', ''MAC-CENTRALEUROPE''] \<Longrightarrow>
   normalize_enc v = v"
  unfolding set_simps insert_iff empty_iff
  by (elim disjE; simp add: normalize_eval)

lemma enc_map_get_Nil: "enc_map_get [] = []"
  by (simp add: enc_map_get_def ENC_MAP_def)

lemma clean_Nil: "clean [] = []"
  by (simp add: clean_def strip_def upper_def remove_spaces_def)

lemma normalize_clean: "normalize_enc s = enc_map_get (clean s)"
proof (cases "s = []")
  case True
  then show ?thesis by (simp add: normalize_enc_def clean_Nil enc_map_get_Nil)
next
  case False
  then show ?thesis by (simp add: normalize_enc_def clean_def)
qed

section \<open>Properties of the matcher\<close>


lemma rmatch_parts:
  "rmatch r s = Some (g, t) \<Longrightarrow> list_all Q s \<Longrightarrow> list_all Q g \<and> list_all Q t"
proof (induction r s arbitrary: g t rule: rmatch.induct)
  case (1 s)
  then show ?case by simp
qed (auto simp: keep_def split: if_splits option.splits)

lemma rmatch_suffix: "rmatch r s = Some (g, t) \<Longrightarrow> \<exists>m. s = m @ t"
proof (induction r s arbitrary: g t rule: rmatch.induct)
  case (1 s)
  then show ?case by simp
qed (auto simp: keep_def split: if_splits option.splits intro: Cons_eq_appendI)

lemma re_search_parts:
  "re_search r s = Some (pre, g, t) \<Longrightarrow> list_all Q s \<Longrightarrow>
   list_all Q pre \<and> list_all Q g \<and> list_all Q t"
proof (induction s arbitrary: pre g t)
  case Nil
  then show ?case by (auto split: option.splits dest: rmatch_parts)
next
  case (Cons x xs)
  show ?case
  proof (cases "rmatch r (x # xs)")
    case None
    with Cons.prems obtain pre' where "re_search r xs = Some (pre', g, t)" "pre = x # pre'"
      by auto
    with Cons.IH[of pre' g t] Cons.prems(2) show ?thesis by simp
  next
    case (Some a)
    with Cons.prems have "rmatch r (x # xs) = Some (g, t)" "pre = []" by auto
    with rmatch_parts[of r "x # xs" g t Q] Cons.prems(2) show ?thesis by simp
  qed
qed


section \<open>Properties of the candidate list\<close>








section \<open>The text that is written can be encoded\<close>

lemma utf8_encode_all: "(utf8_encode t \<noteq> None) = list_all (\<lambda>cp. encode_cp cp \<noteq> None) t"
  by (induction t) (auto split: option.splits)

lemma re_sub_parts:
  "list_all Q s \<Longrightarrow> (\<And>g. list_all Q g \<Longrightarrow> list_all Q (rep g)) \<Longrightarrow> list_all Q (re_sub r rep s)"
proof (induction r rep s rule: re_sub.induct)
  case (1 r rep)
  then show ?case by (auto split: option.splits dest: rmatch_parts[where Q = Q])
next
  case (2 r rep x xs)
  show ?case
  proof (cases "rmatch r (x # xs)")
    case None
    then show ?thesis using 2 by simp
  next
    case (Some a)
    obtain g t where a: "a = (g, t)" by (cases a)
    have p: "list_all Q g" "list_all Q t"
      using rmatch_parts[of r "x # xs" g t Q] Some a "2.prems"(1) by auto
    show ?thesis
    proof (cases "length t \<le> length xs")
      case True
      then show ?thesis using Some a p "2.IH"(2)[OF Some a[symmetric] True p(2)] "2.prems" by simp
    next
      case False
      then show ?thesis using Some a p "2.IH"(3)[OF Some a[symmetric] False] "2.prems" by simp
    qed
  qed
qed

lemma re_sub1_parts:
  "list_all Q s \<Longrightarrow> (\<And>g. list_all Q g \<Longrightarrow> list_all Q (rep g)) \<Longrightarrow> list_all Q (re_sub1 r rep s)"
  unfolding re_sub1_def
  by (auto split: option.splits dest: re_search_parts[where Q = Q])

lemma encode_cp_ascii: "cp < 128 \<Longrightarrow> encode_cp cp \<noteq> None"
  by (simp add: encode_cp_def)

lemma lit_encodable: "list_all (\<lambda>cp. encode_cp cp \<noteq> None) (lit s)"
proof -
  have "encode_cp (code c) \<noteq> None" for c
    using code_lt[of c] by (auto simp: encode_cp_def)
  then show ?thesis by (simp add: lit_def list_all_iff)
qed

lemma ensure_meta_parts:
  assumes "list_all (\<lambda>cp. encode_cp cp \<noteq> None) t"
  shows "list_all (\<lambda>cp. encode_cp cp \<noteq> None) (ensure_meta_utf8 t h)"
proof -
  let ?Q = "\<lambda>cp. encode_cp cp \<noteq> None"
  have m: "list_all ?Q META_UTF8" unfolding META_UTF8_def by (rule lit_encodable)
  have h: "\<And>g. list_all ?Q g \<Longrightarrow> list_all ?Q (head_repl g)"
    using m lit_encodable encode_cp_ascii[of 10] by (simp add: head_repl_def)
  have 1: "list_all ?Q (re_sub META_SUB_RE (\<lambda>g. META_UTF8) t)"
    by (rule re_sub_parts[OF assms]) (rule m)
  have 2: "list_all ?Q (re_sub EQUIV_SUB_RE (\<lambda>g. META_UTF8) (re_sub META_SUB_RE (\<lambda>g. META_UTF8) t))"
    by (rule re_sub_parts[OF 1]) (rule m)
  have 3: "list_all ?Q (re_sub1 HEAD_RE head_repl
      (re_sub EQUIV_SUB_RE (\<lambda>g. META_UTF8) (re_sub META_SUB_RE (\<lambda>g. META_UTF8) t)))"
    by (rule re_sub1_parts[OF 2]) (rule h)
  show ?thesis using assms 2 3 by (simp add: ensure_meta_utf8_def Let_def)
qed

lemma encodable_decoded: "utf8_decode b = Some t \<Longrightarrow> list_all (\<lambda>cp. encode_cp cp \<noteq> None) t"
  using encode_decode[of b t] utf8_encode_all[of t] by simp

lemma encodable_latin1: "list_all (\<lambda>cp. encode_cp cp \<noteq> None) (latin1_decode b)"
  unfolding latin1_decode_def using lit_encodable[of b] by (simp add: lit_def)

lemma encode_ensure_decoded:
  "utf8_decode b = Some t \<Longrightarrow> \<exists>b'. utf8_encode (ensure_meta_utf8 t h) = Some b'"
  using ensure_meta_parts[OF encodable_decoded, of b t h] utf8_encode_all by auto

lemma encode_ensure_latin1: "\<exists>b'. utf8_encode (ensure_meta_utf8 (latin1_decode b) h) = Some b'"
  using ensure_meta_parts[OF encodable_latin1, of b h] utf8_encode_all by auto

section \<open>Properties of the conversion loop\<close>

lemma called_Nil: "called path [] w = w"
  by (simp add: called_def)

lemma called_Cons: "called path cs (called path [c] w) = called path (c # cs) w"
  by (simp add: called_def)

lemma called_fields:
  "files (called path cs w) = files w" "read_only (called path cs w) = read_only w"
  "iconv_calls (called path cs w) = iconv_calls w @ map (\<lambda>c. (c, path)) cs"
  by (simp_all add: called_def)

lemma convert_with_iconv_eq:
  "files w path = Some data \<Longrightarrow>
   convert_with_iconv env path enc w = (iconv_out env data enc, called path [enc] w)"
  by (simp add: convert_with_iconv_def iconv_out_def called_def Let_def split: proc_result.splits)

lemma iconv_out_accepted:
  "iconv_out env data enc \<noteq> [] \<Longrightarrow>
   iconv_run env enc data = Completed 0 (iconv_out env data enc) \<and>
   is_valid_utf8 (iconv_out env data enc)"
  by (auto simp: iconv_out_def split: proc_result.splits if_splits)

lemma convert_loop_rejected:
  "files w path = Some data \<Longrightarrow> list_all (\<lambda>c. iconv_out env data c = []) cs \<Longrightarrow>
   convert_loop env path is_html dry_run cs w = (None, called path cs w)"
proof (induction cs arbitrary: w)
  case Nil
  then show ?case by (simp add: called_Nil)
next
  case (Cons c cs)
  have f: "files (called path [c] w) path = Some data" using Cons.prems(1) by (simp add: called_fields)
  show ?case
    using Cons.prems Cons.IH[OF f] by (simp add: convert_with_iconv_eq called_Cons)
qed


lemma convert_loop_accepted:
  assumes "files w path = Some data" "list_all (\<lambda>c. iconv_out env data c = []) pre"
    "iconv_out env data enc \<noteq> []"
  shows "convert_loop env path is_html dry_run (pre @ enc # post) w =
     (if dry_run then (Some (Inr (OK_DRY enc)), called path (pre @ [enc]) w)
      else
        (case write_text (called path (pre @ [enc]) w) path
           (if is_html then ensure_meta_utf8 (the (utf8_decode (iconv_out env data enc))) True
            else the (utf8_decode (iconv_out env data enc))) of
           (Some e, w2) \<Rightarrow> (Some (Inl e), w2)
         | (None, w2) \<Rightarrow> (Some (Inr (OK enc)), w2)))"
  using assms(1,2)
proof (induction pre arbitrary: w)
  case Nil
  obtain t where t: "utf8_decode (iconv_out env data enc) = Some t"
    using iconv_out_accepted[OF assms(3)] by (auto simp: is_valid_utf8_def)
  show ?case using Nil(1) assms(3) t by (simp add: convert_with_iconv_eq)
next
  case (Cons c pre)
  have f: "files (called path [c] w) path = Some data" using Cons.prems(1) by (simp add: called_fields)
  have r: "list_all (\<lambda>c. iconv_out env data c = []) pre" using Cons.prems(2) by simp
  show ?case
    using Cons.prems Cons.IH[OF f r] by (simp add: convert_with_iconv_eq called_Cons)
qed


lemma candidates_split:
  "list_all P cs \<or> (\<exists>pre e post. cs = pre @ e # post \<and> list_all P pre \<and> \<not> P e)"
proof (induction cs)
  case Nil
  then show ?case by simp
next
  case (Cons c cs)
  show ?case
  proof (cases "P c")
    case False
    have "c # cs = [] @ c # cs \<and> list_all P [] \<and> \<not> P c" using False by simp
    then show ?thesis by blast
  next
    case True
    from Cons.IH show ?thesis
    proof
      assume "list_all P cs"
      then show ?thesis using True by simp
    next
      assume "\<exists>pre e post. cs = pre @ e # post \<and> list_all P pre \<and> \<not> P e"
      then obtain pre e post where "cs = pre @ e # post" "list_all P pre" "\<not> P e" by blast
      then have "c # cs = (c # pre) @ e # post \<and> list_all P (c # pre) \<and> \<not> P e"
        using True by simp
      then show ?thesis by blast
    qed
  qed
qed

lemma write_text_ok:
  "path \<notin> read_only w \<Longrightarrow> utf8_encode t = Some b \<Longrightarrow>
   write_text w path t = (None, w\<lparr>files := (files w)(path \<mapsto> b)\<rparr>)"
  by (simp add: write_text_def)


section \<open>The three paths of process_file\<close>

lemma process_file_missing:
  "files w path = None \<Longrightarrow> process_file env path dry_run w = (Inl (FileNotFoundError path), w)"
  by (simp add: process_file_def read_bytes_def)

lemma process_file_skip:
  assumes "files w path = Some data" "already_utf8 data"
  shows "process_file env path dry_run w =
    (if \<not> dry_run \<and> is_html_path path
     then (case write_text w path (ensure_meta_utf8 (the (utf8_decode data)) True) of
             (Some e, w') \<Rightarrow> (Inl e, w')
           | (None, w') \<Rightarrow> (Inr SKIP, w'))
     else (Inr SKIP, w))"
proof -
  obtain t where t: "utf8_decode data = Some t"
    using assms(2) by (auto simp: already_utf8_def is_valid_utf8_def)
  show ?thesis
    using assms t unfolding process_file_def read_bytes_def already_utf8_def
    by (simp add: Let_def)
qed

lemma process_file_convert:
  assumes "files w path = Some data" "\<not> already_utf8 data"
  shows "process_file env path dry_run w =
    (case convert_loop env path (is_html_path path) dry_run
            (ordered_candidates (declared_charset data) (uchardet_guess env path w)) w of
       (Some r, w') \<Rightarrow> (r, w')
     | (None, w') \<Rightarrow>
         latin1_fallback path (is_html_path path) dry_run data (declared_charset data)
           (uchardet_guess env path w) w')"
proof -
  have c: "(is_valid_utf8 data \<and>
      (declared_charset data = [] \<or>
       upper (declared_charset data) \<in> {''UTF-8'', ''UTF8'', ''US-ASCII'', ''ASCII''})) = False"
    using assms(2) by (simp add: already_utf8_def)
  show ?thesis
    unfolding process_file_def read_bytes_def Let_def
    by (simp only: assms(1) option.case sum.case c if_False)
qed




lemma process_file_accepted:
  assumes f: "files w path = Some data" and n: "\<not> already_utf8 data"
    and c: "ordered_candidates (declared_charset data) (uchardet_guess env path w) = pre @ enc # post"
    and r: "list_all (\<lambda>c. iconv_out env data c = []) pre"
    and a: "iconv_out env data enc \<noteq> []"
    and wr: "path \<notin> read_only w"
  shows "\<exists>t b. utf8_decode (iconv_out env data enc) = Some t \<and>
      utf8_encode (if is_html_path path then ensure_meta_utf8 t True else t) = Some b \<and>
      process_file env path dry_run w =
       (if dry_run then (Inr (OK_DRY enc), called path (pre @ [enc]) w)
        else (Inr (OK enc), (called path (pre @ [enc]) w)\<lparr>files := (files w)(path \<mapsto> b)\<rparr>))"
proof -
  obtain t where t: "utf8_decode (iconv_out env data enc) = Some t"
    using iconv_out_accepted[OF a] by (auto simp: is_valid_utf8_def)
  let ?t' = "if is_html_path path then ensure_meta_utf8 t True else t"
  have "\<exists>b. utf8_encode ?t' = Some b"
    using encode_ensure_decoded[OF t, of True] encode_decode[OF t] by auto
  then obtain b where b: "utf8_encode ?t' = Some b" by blast
  have wr': "path \<notin> read_only (called path (pre @ [enc]) w)" using wr by (simp add: called_fields)
  have wt: "write_text (called path (pre @ [enc]) w) path ?t' =
      (None, (called path (pre @ [enc]) w)\<lparr>files := (files w)(path \<mapsto> b)\<rparr>)"
    using write_text_ok[OF wr' b] by (simp add: called_fields)
  have l: "convert_loop env path (is_html_path path) dry_run (pre @ enc # post) w =
     (if dry_run then (Some (Inr (OK_DRY enc)), called path (pre @ [enc]) w)
      else (Some (Inr (OK enc)), (called path (pre @ [enc]) w)\<lparr>files := (files w)(path \<mapsto> b)\<rparr>))"
    using convert_loop_accepted[OF f r a, where is_html = "is_html_path path" and dry_run = dry_run and post = post] wt t
    by (simp split: if_splits)
  have "process_file env path dry_run w =
       (if dry_run then (Inr (OK_DRY enc), called path (pre @ [enc]) w)
        else (Inr (OK enc), (called path (pre @ [enc]) w)\<lparr>files := (files w)(path \<mapsto> b)\<rparr>))"
    by (simp add: process_file_convert[OF f n] c l)
  then show ?thesis using t b by blast
qed

lemma process_file_rejected:
  assumes f: "files w path = Some data" and n: "\<not> already_utf8 data"
    and r: "list_all (\<lambda>c. iconv_out env data c = [])
              (ordered_candidates (declared_charset data) (uchardet_guess env path w))"
  shows "process_file env path dry_run w =
     latin1_fallback path (is_html_path path) dry_run data (declared_charset data)
       (uchardet_guess env path w)
       (called path (ordered_candidates (declared_charset data) (uchardet_guess env path w)) w)"
  by (simp add: process_file_convert[OF f n] convert_loop_rejected[OF f r])

lemma latin1_fallback_eq:
  "\<exists>b. utf8_encode (if is_html then ensure_meta_utf8 (latin1_decode data) True
                     else latin1_decode data) = Some b \<and>
     latin1_fallback path is_html dry_run data dec det w =
       (if dry_run then (Inr OK_FALLBACK, w)
        else if path \<in> read_only w then (Inr (FAIL (or_dash dec) (or_dash det)), w)
        else (Inr OK_FALLBACK, w\<lparr>files := (files w)(path \<mapsto> b)\<rparr>))"
proof -
  let ?t' = "if is_html then ensure_meta_utf8 (latin1_decode data) True else latin1_decode data"
  have "\<exists>b. utf8_encode ?t' = Some b"
    using encode_ensure_latin1[of data True] encodable_latin1[of data] utf8_encode_all[of "latin1_decode data"]
    by auto
  then obtain b where b: "utf8_encode ?t' = Some b" by blast
  have "latin1_fallback path is_html dry_run data dec det w =
       (if dry_run then (Inr OK_FALLBACK, w)
        else if path \<in> read_only w then (Inr (FAIL (or_dash dec) (or_dash det)), w)
        else (Inr OK_FALLBACK, w\<lparr>files := (files w)(path \<mapsto> b)\<rparr>))"
    using b unfolding latin1_fallback_def Let_def
    by (simp add: write_text_def is_Exception_def)
  then show ?thesis using b by blast
qed

lemma write_text_cases:
  "utf8_encode t = Some b \<Longrightarrow>
   write_text w path t =
     (if path \<in> read_only w then (Some (PermissionError path), w)
      else (None, w\<lparr>files := (files w)(path \<mapsto> b)\<rparr>))"
  by (simp add: write_text_def)

lemma process_file_cases:
  assumes f: "files w path = Some data"
  obtains
    (skip) t b where "already_utf8 data" "utf8_decode data = Some t"
      "utf8_encode (ensure_meta_utf8 t True) = Some b"
      "process_file env path dry_run w =
        (if \<not> dry_run \<and> is_html_path path
         then (if path \<in> read_only w then (Inl (PermissionError path), w)
               else (Inr SKIP, w\<lparr>files := (files w)(path \<mapsto> b)\<rparr>))
         else (Inr SKIP, w))"
  | (accepted) pre enc post t b where "\<not> already_utf8 data"
      "ordered_candidates (declared_charset data) (uchardet_guess env path w) = pre @ enc # post"
      "list_all (\<lambda>c. iconv_out env data c = []) pre" "iconv_out env data enc \<noteq> []"
      "utf8_decode (iconv_out env data enc) = Some t"
      "utf8_encode (if is_html_path path then ensure_meta_utf8 t True else t) = Some b"
      "process_file env path dry_run w =
        (if dry_run then (Inr (OK_DRY enc), called path (pre @ [enc]) w)
         else if path \<in> read_only w then (Inl (PermissionError path), called path (pre @ [enc]) w)
         else (Inr (OK enc), (called path (pre @ [enc]) w)\<lparr>files := (files w)(path \<mapsto> b)\<rparr>))"
  | (fallback) b where "\<not> already_utf8 data"
      "list_all (\<lambda>c. iconv_out env data c = [])
         (ordered_candidates (declared_charset data) (uchardet_guess env path w))"
      "utf8_encode (if is_html_path path then ensure_meta_utf8 (latin1_decode data) True
                    else latin1_decode data) = Some b"
      "process_file env path dry_run w =
        (if dry_run
         then (Inr OK_FALLBACK,
               called path (ordered_candidates (declared_charset data) (uchardet_guess env path w)) w)
         else if path \<in> read_only w
         then (Inr (FAIL (or_dash (declared_charset data)) (or_dash (uchardet_guess env path w))),
               called path (ordered_candidates (declared_charset data) (uchardet_guess env path w)) w)
         else (Inr OK_FALLBACK,
               (called path (ordered_candidates (declared_charset data) (uchardet_guess env path w)) w)
                 \<lparr>files := (files w)(path \<mapsto> b)\<rparr>))"
proof (cases "already_utf8 data")
  case True
  obtain t where t: "utf8_decode data = Some t"
    using True by (auto simp: already_utf8_def is_valid_utf8_def)
  obtain b where b: "utf8_encode (ensure_meta_utf8 t True) = Some b"
    using encode_ensure_decoded[OF t] by blast
  have "process_file env path dry_run w =
        (if \<not> dry_run \<and> is_html_path path
         then (if path \<in> read_only w then (Inl (PermissionError path), w)
               else (Inr SKIP, w\<lparr>files := (files w)(path \<mapsto> b)\<rparr>))
         else (Inr SKIP, w))"
    by (simp add: process_file_skip[OF f True] t write_text_cases[OF b])
  then show ?thesis using skip[OF True t b] by blast
next
  case False
  let ?cs = "ordered_candidates (declared_charset data) (uchardet_guess env path w)"
  from candidates_split[of "\<lambda>c. iconv_out env data c = []" ?cs]
  show ?thesis
  proof
    assume r: "list_all (\<lambda>c. iconv_out env data c = []) ?cs"
    obtain b where b: "utf8_encode (if is_html_path path
        then ensure_meta_utf8 (latin1_decode data) True else latin1_decode data) = Some b"
      and l: "latin1_fallback path (is_html_path path) dry_run data (declared_charset data)
          (uchardet_guess env path w) (called path ?cs w) =
        (if dry_run then (Inr OK_FALLBACK, called path ?cs w)
         else if path \<in> read_only (called path ?cs w)
         then (Inr (FAIL (or_dash (declared_charset data)) (or_dash (uchardet_guess env path w))),
               called path ?cs w)
         else (Inr OK_FALLBACK,
               (called path ?cs w)\<lparr>files := (files (called path ?cs w))(path \<mapsto> b)\<rparr>))"
      using latin1_fallback_eq[of "is_html_path path" data path dry_run "declared_charset data"
          "uchardet_guess env path w" "called path ?cs w"] by blast
    show ?thesis
      by (rule fallback[OF False r b])
         (simp add: process_file_rejected[OF f False r] l called_fields)
  next
    assume "\<exists>pre e post. ?cs = pre @ e # post \<and>
      list_all (\<lambda>c. iconv_out env data c = []) pre \<and> \<not> iconv_out env data e = []"
    then obtain pre enc post where c: "?cs = pre @ enc # post"
      and r: "list_all (\<lambda>c. iconv_out env data c = []) pre"
      and a: "iconv_out env data enc \<noteq> []" by blast
    obtain t where t: "utf8_decode (iconv_out env data enc) = Some t"
      using iconv_out_accepted[OF a] by (auto simp: is_valid_utf8_def)
    let ?t' = "if is_html_path path then ensure_meta_utf8 t True else t"
    have "\<exists>b. utf8_encode ?t' = Some b"
      using encode_ensure_decoded[OF t, of True] encode_decode[OF t] by auto
    then obtain b where b: "utf8_encode ?t' = Some b" by blast
    have l: "convert_loop env path (is_html_path path) dry_run (pre @ enc # post) w =
       (if dry_run then (Some (Inr (OK_DRY enc)), called path (pre @ [enc]) w)
        else if path \<in> read_only w
        then (Some (Inl (PermissionError path)), called path (pre @ [enc]) w)
        else (Some (Inr (OK enc)),
              (called path (pre @ [enc]) w)\<lparr>files := (files w)(path \<mapsto> b)\<rparr>))"
    proof -
      have wt: "write_text (called path (pre @ [enc]) w) path ?t' =
          (if path \<in> read_only w
           then (Some (PermissionError path), called path (pre @ [enc]) w)
           else (None, (called path (pre @ [enc]) w)\<lparr>files := (files w)(path \<mapsto> b)\<rparr>))"
        using write_text_cases[OF b, of "called path (pre @ [enc]) w" path]
        by (simp add: called_fields)
      have "convert_loop env path (is_html_path path) dry_run (pre @ enc # post) w =
         (if dry_run then (Some (Inr (OK_DRY enc)), called path (pre @ [enc]) w)
          else (case write_text (called path (pre @ [enc]) w) path ?t' of
                  (Some e, w2) \<Rightarrow> (Some (Inl e), w2)
                | (None, w2) \<Rightarrow> (Some (Inr (OK enc)), w2)))"
        using convert_loop_accepted[OF f r a, where is_html = "is_html_path path"
            and dry_run = dry_run and post = post] t
        by simp
      then show ?thesis by (simp add: wt)
    qed
    show ?thesis
      by (rule accepted[OF False c r a t b])
         (simp add: process_file_convert[OF f False] c l)
  qed
qed




section \<open>Properties of the rewriting of the declaration\<close>

lemma re_sub_found:
  "re_search r s \<noteq> None \<Longrightarrow> \<exists>a b. re_sub r (\<lambda>g. m) s = a @ m @ b"
proof (induction s)
  case Nil
  then have "re_sub r (\<lambda>g. m) [] = [] @ m @ []" by (auto split: option.splits)
  then show ?case by blast
next
  case (Cons x xs)
  show ?case
  proof (cases "rmatch r (x # xs)")
    case None
    then have "re_search r xs \<noteq> None" using Cons.prems by auto
    then obtain a b where "re_sub r (\<lambda>g. m) xs = a @ m @ b" using Cons.IH by blast
    then have "re_sub r (\<lambda>g. m) (x # xs) = (x # a) @ m @ b" using None by simp
    then show ?thesis by blast
  next
    case (Some p)
    obtain g t where p: "p = (g, t)" by (cases p)
    have "\<exists>b. re_sub r (\<lambda>g. m) (x # xs) = [] @ m @ b" using Some p by simp
    then show ?thesis by blast
  qed
qed

lemma re_sub_not_found: "re_search r s = None \<Longrightarrow> re_sub r rep s = s"
  by (induction s) (auto split: option.splits)

lemma re_search_skip: "re_search r s \<noteq> None \<Longrightarrow> re_search r (a @ s) \<noteq> None"
proof (induction a)
  case Nil
  then show ?case by simp
next
  case (Cons x a)
  then show ?case by (cases "rmatch r (x # a @ s)") auto
qed

lemma re_search_here: "rmatch r s \<noteq> None \<Longrightarrow> re_search r s \<noteq> None"
  by (cases s) auto

lemmas str_re_eval =
  u_str_def u_lit_def u_space_def u_not_gt_def u_quote_def u_name_def lit_def code_def
  lower_char_def upper_char_def keep_def

lemma rmatch_meta_utf8: "rmatch UTF8_META_RE (META_UTF8 @ b) \<noteq> None"
  by (simp add: UTF8_META_RE_def META_UTF8_def str_re_eval)

lemma has_utf8_meta_inside: "has_utf8_meta (a @ META_UTF8 @ b)"
  unfolding has_utf8_meta_def
  by (rule re_search_skip) (rule re_search_here, rule rmatch_meta_utf8)

lemma ensure_meta_replaced:
  "ensure_meta_utf8 text True =
     (if has_utf8_meta (replaced text) then replaced text
      else re_sub1 HEAD_RE head_repl (replaced text))"
  by (auto simp add: ensure_meta_utf8_def replaced_def has_utf8_meta_def Let_def)

text \<open>When the replacements leave no UTF-8 declaration, they have replaced nothing.\<close>

lemma replaced_unchanged:
  assumes "\<not> has_utf8_meta (replaced text)"
  shows "replaced text = text" "\<not> has_charset_meta text"
proof -
  let ?t1 = "re_sub META_SUB_RE (\<lambda>g. META_UTF8) text"
  have 2: "re_search EQUIV_SUB_RE ?t1 = None"
  proof (rule ccontr)
    assume "re_search EQUIV_SUB_RE ?t1 \<noteq> None"
    then obtain a b where "replaced text = a @ META_UTF8 @ b"
      unfolding replaced_def using re_sub_found by blast
    then show False using assms has_utf8_meta_inside by simp
  qed
  then have t2: "replaced text = ?t1" unfolding replaced_def by (rule re_sub_not_found)
  have 1: "re_search META_SUB_RE text = None"
  proof (rule ccontr)
    assume "re_search META_SUB_RE text \<noteq> None"
    then obtain a b where "?t1 = a @ META_UTF8 @ b" using re_sub_found by blast
    then show False using assms has_utf8_meta_inside t2 by simp
  qed
  then show "\<not> has_charset_meta text" by (simp add: has_charset_meta_def)
  show "replaced text = text" using t2 re_sub_not_found[OF 1] by simp
qed

lemma ensure_meta_has_utf8:
  assumes "has_head text \<or> has_charset_meta text"
  shows "has_utf8_meta (ensure_meta_utf8 text True)"
proof (cases "has_utf8_meta (replaced text)")
  case True
  then show ?thesis by (simp add: ensure_meta_replaced)
next
  case False
  note u = replaced_unchanged[OF False]
  then have "has_head text" using assms by simp
  then obtain pre g post where h: "re_search HEAD_RE text = Some (pre, g, post)"
    by (auto simp: has_head_def)
  have "ensure_meta_utf8 text True = pre @ head_repl g @ post"
    using False u(1) h by (simp add: ensure_meta_replaced re_sub1_def)
  also have "\<dots> = (pre @ lit ''<head'' @ g @ lit ''>'' @ [10]) @ META_UTF8 @ post"
    by (simp add: head_repl_def)
  finally have e: "ensure_meta_utf8 text True =
      (pre @ lit ''<head'' @ g @ lit ''>'' @ [10]) @ META_UTF8 @ post" .
  show ?thesis unfolding e by (rule has_utf8_meta_inside)
qed

lemma ensure_meta_inserts:
  assumes "\<not> has_utf8_meta (replaced text)" "re_search HEAD_RE text = Some (pre, g, post)"
  shows "ensure_meta_utf8 text True = pre @ head_repl g @ post"
  using assms replaced_unchanged(1)[OF assms(1)] by (simp add: ensure_meta_replaced re_sub1_def)

lemma re_search_split: "re_search r s = Some (pre, g, t) \<Longrightarrow> \<exists>m. s = pre @ m @ t"
proof (induction s arbitrary: pre)
  case Nil
  then show ?case by (auto split: option.splits dest: rmatch_suffix)
next
  case (Cons x xs)
  show ?case
  proof (cases "rmatch r (x # xs)")
    case None
    with Cons.prems obtain pre' where p: "re_search r xs = Some (pre', g, t)" "pre = x # pre'"
      by auto
    from Cons.IH[OF p(1)] obtain m where "xs = pre' @ m @ t" by blast
    then have "x # xs = pre @ m @ t" using p(2) by simp
    then show ?thesis by blast
  next
    case (Some a)
    with Cons.prems have "rmatch r (x # xs) = Some (g, t)" "pre = []" by auto
    then show ?thesis using rmatch_suffix[of r "x # xs" g t] by auto
  qed
qed

section \<open>Properties of the run over all files\<close>




section \<open>Evaluation on concrete files\<close>

lemmas bytes_re_eval =
  declared_charset_def META_CHARSET_RE_def HTTP_EQUIV_RE_def b_str_def b_lit_def lower_char_def
  b_space_def b_not_gt_def b_quote_def b_name_def code_def keep_def decode_ascii_ignore_def

lemma sheet_declared: "declared_charset [CHR 0xE9] = []"
  by (simp add: bytes_re_eval)

lemma fallback_candidates:
  "ordered_candidates [] [] =
   [''CP1252'', ''ISO-8859-1''] @ ''CP1250'' # [''ISO-8859-13'', ''CP865'', ''MAC-CENTRALEUROPE'']"
  by (simp add: ordered_candidates_def FALLBACKS_def normalize_eval Let_def)

lemma sheet_not_utf8: "\<not> already_utf8 [CHR 0xE9]"
  by (simp add: already_utf8_def is_valid_utf8_def code_def)

lemma css_not_html: "\<not> is_html_path ''style.css''" "\<not> is_html_path ''locked.css''"
  by (simp_all add: is_html_path_def path_suffix_def path_name_def lower_def lower_char_def Let_def)

lemma sheet_converted:
  "fst (process_file third_try ''style.css'' False sheet_world) = Inr (OK ''CP1250'')"
proof -
  have f: "files sheet_world ''style.css'' = Some [CHR 0xE9]" by (simp add: sheet_world_def)
  have c: "ordered_candidates (declared_charset [CHR 0xE9])
      (uchardet_guess third_try ''style.css'' sheet_world) =
    [''CP1252'', ''ISO-8859-1''] @ ''CP1250'' # [''ISO-8859-13'', ''CP865'', ''MAC-CENTRALEUROPE'']"
    by (simp only: sheet_declared fallback_candidates)
       (simp add: uchardet_guess_def third_try_def sheet_world_def fallback_candidates)
  have r: "list_all (\<lambda>c. iconv_out third_try [CHR 0xE9] c = []) [''CP1252'', ''ISO-8859-1'']"
    by (simp add: iconv_out_def third_try_def)
  have a: "iconv_out third_try [CHR 0xE9] ''CP1250'' \<noteq> []"
    by (simp add: iconv_out_def third_try_def is_valid_utf8_def code_def cont_def)
  have wr: "''style.css'' \<notin> read_only sheet_world" by (simp add: sheet_world_def)
  show ?thesis
    using process_file_accepted[OF f sheet_not_utf8 c r a wr, of False] by auto
qed






section \<open>The claims\<close>

text \<open>
  C9. Normalizing an encoding name is idempotent: a value of the alias table is
  mapped to itself, and a name the table does not know, once stripped, upper-cased and
  freed of spaces, is left unchanged by a second application.
\<close>

theorem normalize_idempotent: "normalize_enc (normalize_enc s) = normalize_enc s"
proof (cases "map_of ENC_MAP (clean s)")
  case None
  then have 1: "normalize_enc s = clean s" by (simp add: normalize_clean enc_map_get_def)
  have "normalize_enc (clean s) = enc_map_get (clean s)"
    by (simp only: normalize_clean clean_fixed)
  also have "\<dots> = clean s" using None by (simp add: enc_map_get_def)
  finally show ?thesis unfolding 1 .
next
  case (Some v)
  then have 1: "normalize_enc s = v" by (simp add: normalize_clean enc_map_get_def)
  have "v \<in> set [''UTF-8'', ''CP1252'', ''CP1250'', ''ISO-8859-1'', ''ISO-8859-2'', ''ISO-8859-3'',
        ''ISO-8859-9'', ''ISO-8859-13'', ''ISO-8859-15'', ''CP865'', ''MAC-CENTRALEUROPE'']"
    using enc_map_values[OF Some] by simp
  then show ?thesis unfolding 1 by (rule normalize_values)
qed










text \<open>
  C10. Without \<^verbatim>\<open>is_html\<close>, \<^verbatim>\<open>ensure_meta_utf8\<close> returns its input. For a file
  whose suffix is not \<^verbatim>\<open>.html\<close> or \<^verbatim>\<open>.htm\<close>, a real run that reports \<^verbatim>\<open>OK\<close> has
  written exactly the output of the accepted conversion, one that reports the fallback
  has written the UTF-8 encoding of the latin-1 decoding of the file, and any other
  outcome has left every file as it was.
\<close>

theorem non_markup_content:
  assumes "\<not> is_html_path path" and "process_file env path False w = (Inr r, w')"
  shows "ensure_meta_utf8 text False = text \<and>
    (case r of
       OK enc \<Rightarrow>
         \<exists>data out. files w path = Some data \<and> iconv_run env enc data = Completed 0 out \<and>
           files w' = (files w)(path \<mapsto> out)
     | OK_FALLBACK \<Rightarrow>
         \<exists>data b. files w path = Some data \<and> utf8_encode (latin1_decode data) = Some b \<and>
           files w' = (files w)(path \<mapsto> b)
     | _ \<Rightarrow> files w' = files w)"
proof -
  have 1: "ensure_meta_utf8 text False = text" by (simp add: ensure_meta_utf8_def)
  have 2: "(case r of
       OK enc \<Rightarrow>
         \<exists>data out. files w path = Some data \<and> iconv_run env enc data = Completed 0 out \<and>
           files w' = (files w)(path \<mapsto> out)
     | OK_FALLBACK \<Rightarrow>
         \<exists>data b. files w path = Some data \<and> utf8_encode (latin1_decode data) = Some b \<and>
           files w' = (files w)(path \<mapsto> b)
     | _ \<Rightarrow> files w' = files w)"
  proof (cases "files w path")
    case None
    then show ?thesis using assms(2) by (simp add: process_file_missing)
  next
    case (Some data)
    show ?thesis
    proof (rule process_file_cases[OF Some, of env False])
      fix t b
      assume "process_file env path False w =
        (if \<not> False \<and> is_html_path path
         then (if path \<in> read_only w then (Inl (PermissionError path), w)
               else (Inr SKIP, w\<lparr>files := (files w)(path \<mapsto> b)\<rparr>))
         else (Inr SKIP, w))"
      then show ?thesis using assms by auto
    next
      fix pre enc post t b
      assume a: "iconv_out env data enc \<noteq> []"
        and t: "utf8_decode (iconv_out env data enc) = Some t"
        and b: "utf8_encode (if is_html_path path then ensure_meta_utf8 t True else t) = Some b"
        and p: "process_file env path False w =
        (if False then (Inr (OK_DRY enc), called path (pre @ [enc]) w)
         else if path \<in> read_only w then (Inl (PermissionError path), called path (pre @ [enc]) w)
         else (Inr (OK enc), (called path (pre @ [enc]) w)\<lparr>files := (files w)(path \<mapsto> b)\<rparr>))"
      have "b = iconv_out env data enc" using b encode_decode[OF t] assms(1) by simp
      then show ?thesis
        using p assms(2) Some iconv_out_accepted[OF a]
        by (auto simp: called_fields split: if_splits)
    next
      fix b
      assume b: "utf8_encode (if is_html_path path then ensure_meta_utf8 (latin1_decode data) True
                    else latin1_decode data) = Some b"
        and p: "process_file env path False w =
        (if False
         then (Inr OK_FALLBACK,
               called path (ordered_candidates (declared_charset data) (uchardet_guess env path w)) w)
         else if path \<in> read_only w
         then (Inr (FAIL (or_dash (declared_charset data)) (or_dash (uchardet_guess env path w))),
               called path (ordered_candidates (declared_charset data) (uchardet_guess env path w)) w)
         else (Inr OK_FALLBACK,
               (called path (ordered_candidates (declared_charset data) (uchardet_guess env path w)) w)
                 \<lparr>files := (files w)(path \<mapsto> b)\<rparr>))"
      show ?thesis
        using p assms b Some by (auto simp: called_fields split: if_splits)
    qed
  qed
  show ?thesis using 1 2 by blast
qed

theorem non_markup_content_witness:
  "ensure_meta_utf8 [] False = [] \<and>
   (\<exists>data out. files sheet_world ''style.css'' = Some data \<and>
      iconv_run third_try ''CP1250'' data = Completed 0 out \<and>
      files (snd (process_file third_try ''style.css'' False sheet_world)) =
        (files sheet_world)(''style.css'' \<mapsto> out))"
proof -
  have h: "process_file third_try ''style.css'' False sheet_world =
    (Inr (OK ''CP1250''), snd (process_file third_try ''style.css'' False sheet_world))"
    using sheet_converted by (simp add: prod_eq_iff)
  from non_markup_content[OF css_not_html(1) h, of "[]"] show ?thesis by simp
qed



end
